theory Spec2Isabelle
  imports Complex_Main "HOL-Library.FSet" "HOL-Library.List_Lexorder" "HOL-Library.Char_ord"
    "HOL-Library.Log_Nat"
begin

section \<open>Data model\<close>

text \<open>
  A function identifier is a Python \<open>str\<close>; a clone class is a Python \<open>set\<close> of
  identifiers, hence a finite set; a collection (\<open>res\<close>, \<open>gt\<close>) is a Python list of
  clone classes. The classes built by \<open>to_ccs\<close> may be empty (a class id whose rows
  were all removed by the depth filter), so emptiness is not excluded by the type.
\<close>

type_synonym func_id = string
type_synonym clone_class = "func_id fset"

datatype py_error = ZeroDivisionError

text \<open>The three counters \<open>tp, fp, fn\<close> of \<open>calculate_metrics.py\<close> (Python ints).\<close>

record counters =
  tp :: int
  fp :: int
  fn :: int

text \<open>
  Python's true division \<open>x / y\<close> of two ints: it raises \<open>ZeroDivisionError\<close> when
  \<open>y = 0\<close>, and otherwise returns the double nearest to the quotient. A float obtained
  this way is represented by the exact quotient it was rounded from; where the source
  compares two such floats, the model compares their roundings (\<open>double_round\<close> below).
\<close>

definition py_truediv :: "int \<Rightarrow> int \<Rightarrow> py_error + rat" where
  "py_truediv x y = (if y = 0 then Inl ZeroDivisionError else Inr (of_int x / of_int y))"

text \<open>
  Rounding to the nearest double (IEEE 754 binary64, ties to even), which is what
  CPython's int division computes: \<open>binade a\<close> is the exponent \<open>e\<close> with
  \<open>2^e \<le> a < 2^(e+1)\<close>; a double in that binade is a multiple of \<open>2^(e-52)\<close>, and
  below \<open>2^(-1022)\<close> (subnormal numbers) of \<open>2^(-1074)\<close>. Overflow is not modelled: every
  quotient compared in this program lies between 0 and 1.
\<close>

definition round_half_even :: "rat \<Rightarrow> int" where
  "round_half_even r =
     (let f = \<lfloor>r\<rfloor>; d = r - of_int f
      in if d < 1 / 2 then f else if d > 1 / 2 then f + 1 else if even f then f else f + 1)"

definition binade :: "rat \<Rightarrow> int" where
  "binade a =
     (if 1 \<le> a then int (floorlog 2 (nat \<lfloor>a\<rfloor>)) - 1
      else - int (floorlog 2 (nat \<lceil>1 / a\<rceil> - 1)))"

definition double_round :: "rat \<Rightarrow> rat" where
  "double_round x =
     (if x = 0 then 0
      else (let a = \<bar>x\<bar>;
                ulp = 2 powi (max (binade a) (- 1022) - 52)
            in sgn x * of_int (round_half_even (a / ulp)) * ulp))"

section \<open>The scorer of \<open>calculate_metrics.py\<close>\<close>

subsection \<open>Subsumption test (lines 39-44 and 56-61)\<close>

text \<open>
  \<^verbatim>\<open>
  subset = False
  for set2 in res:
      if cc != set2 and cc.issubset(set2):
          subset = subset or True
  \<close>
  \<open>!=\<close> on Python sets compares values.
\<close>

fun subset_loop :: "clone_class \<Rightarrow> clone_class list \<Rightarrow> bool \<Rightarrow> bool" where
  "subset_loop cc [] subset' = subset'"
| "subset_loop cc (set2 # rest) subset' =
     (if cc \<noteq> set2 \<and> cc |\<subseteq>| set2
      then subset_loop cc rest (subset' \<or> True)
      else subset_loop cc rest subset')"

definition is_subset :: "clone_class \<Rightarrow> clone_class list \<Rightarrow> bool" where
  "is_subset cc res = subset_loop cc res False"

subsection \<open>Best match of a detected class (lines 45-51)\<close>

text \<open>
  \<^verbatim>\<open>
  union = cc.union(other)
  intersection = cc.intersection(other)
  score = len(intersection)/len(union)
  \<close>
\<close>

definition jaccard :: "clone_class \<Rightarrow> clone_class \<Rightarrow> py_error + rat" where
  "jaccard cc other =
     (let union = cc |\<union>| other;
          intersection = cc |\<inter>| other
      in py_truediv (int (fcard intersection)) (int (fcard union)))"

text \<open>
  \<^verbatim>\<open>
  best_score, best_other = 0.0, set()
  for i, other in enumerate(gt):
      ...
      if score > best_score:
          best_score, best_other = score, other
  \<close>
  \<open>score\<close> and \<open>best_score\<close> are floats here, so \<open>score > best_score\<close> compares the
  two doubles.
\<close>

fun best_jaccard_loop ::
  "clone_class \<Rightarrow> clone_class list \<Rightarrow> rat \<times> clone_class \<Rightarrow> py_error + (rat \<times> clone_class)" where
  "best_jaccard_loop cc [] best = Inr best"
| "best_jaccard_loop cc (other # rest) (best_score, best_other) =
     (case jaccard cc other of
        Inl e \<Rightarrow> Inl e
      | Inr score \<Rightarrow>
          if double_round score > double_round best_score
          then best_jaccard_loop cc rest (score, other)
          else best_jaccard_loop cc rest (best_score, best_other))"

definition best_jaccard :: "clone_class \<Rightarrow> clone_class list \<Rightarrow> py_error + (rat \<times> clone_class)" where
  "best_jaccard cc gt = best_jaccard_loop cc gt (0, {||})"

subsection \<open>First pass: detected classes against the truth (lines 38-54)\<close>

text \<open>
  The body of the first \<open>for\<close> loop for a class that was not skipped by \<open>continue\<close>:
  \<^verbatim>\<open>
  tp += len(cc.intersection(best_other))
  fp += len(cc.difference(best_other))
  fn += len(best_other.difference(cc))
  \<close>
\<close>

definition account :: "clone_class \<Rightarrow> clone_class \<Rightarrow> counters \<Rightarrow> counters" where
  "account cc best_other c =
     \<lparr> tp = tp c + int (fcard (cc |\<inter>| best_other)),
       fp = fp c + int (fcard (cc |-| best_other)),
       fn = fn c + int (fcard (best_other |-| cc)) \<rparr>"

definition detected_step ::
  "clone_class list \<Rightarrow> clone_class list \<Rightarrow> clone_class \<Rightarrow> counters \<Rightarrow> py_error + counters" where
  "detected_step res gt cc c =
     (if is_subset cc res then Inr c
      else case best_jaccard cc gt of
             Inl e \<Rightarrow> Inl e
           | Inr (best_score, best_other) \<Rightarrow> Inr (account cc best_other c))"

fun detected_loop ::
  "clone_class list \<Rightarrow> clone_class list \<Rightarrow> clone_class list \<Rightarrow> counters \<Rightarrow> py_error + counters" where
  "detected_loop res gt [] c = Inr c"
| "detected_loop res gt (cc # rest) c =
     (case detected_step res gt cc c of
        Inl e \<Rightarrow> Inl e
      | Inr c' \<Rightarrow> detected_loop res gt rest c')"

subsection \<open>Second pass: truth classes nobody matched (lines 55-68)\<close>

text \<open>
  \<^verbatim>\<open>
  best_score, best_other = 0.0, set()
  for i, other in enumerate(res):
      score = len(cc.intersection(other))
      if score > best_score:
          best_score, best_other = score, other
  \<close>
  Here \<open>score\<close> is an int and \<open>best_score\<close> is \<open>0.0\<close> or an earlier int; Python compares
  an int with a float, or with an int, exactly.
\<close>

fun best_overlap_loop ::
  "clone_class \<Rightarrow> clone_class list \<Rightarrow> rat \<times> clone_class \<Rightarrow> rat \<times> clone_class" where
  "best_overlap_loop cc [] best = best"
| "best_overlap_loop cc (other # rest) (best_score, best_other) =
     (let score = of_nat (fcard (cc |\<inter>| other))
      in if score > best_score
         then best_overlap_loop cc rest (score, other)
         else best_overlap_loop cc rest (best_score, best_other))"

definition best_overlap :: "clone_class \<Rightarrow> clone_class list \<Rightarrow> rat \<times> clone_class" where
  "best_overlap cc res = best_overlap_loop cc res (0, {||})"

definition truth_step ::
  "clone_class list \<Rightarrow> clone_class list \<Rightarrow> clone_class \<Rightarrow> counters \<Rightarrow> counters" where
  "truth_step res gt cc c =
     (if is_subset cc gt then c
      else case best_overlap cc res of
             (best_score, best_other) \<Rightarrow>
               if best_score = 0 then c\<lparr>fn := fn c + int (fcard cc)\<rparr> else c)"

fun truth_loop ::
  "clone_class list \<Rightarrow> clone_class list \<Rightarrow> clone_class list \<Rightarrow> counters \<Rightarrow> counters" where
  "truth_loop res gt [] c = c"
| "truth_loop res gt (cc # rest) c = truth_loop res gt rest (truth_step res gt cc c)"

subsection \<open>Counters and derived metrics (lines 37-71)\<close>

definition count_all :: "clone_class list \<Rightarrow> clone_class list \<Rightarrow> py_error + counters" where
  "count_all res gt =
     (case detected_loop res gt res \<lparr>tp = 0, fp = 0, fn = 0\<rparr> of
        Inl e \<Rightarrow> Inl e
      | Inr c \<Rightarrow> Inr (truth_loop res gt gt c))"

record metrics =
  precision :: rat
  recall :: rat
  fscore :: rat

text \<open>
  \<^verbatim>\<open>
  precision = tp/(tp+fp)
  recall = tp/(tp+fn)
  fscore = 2*tp/(2*tp+fp+fn)
  \<close>
\<close>

definition derive_metrics :: "counters \<Rightarrow> py_error + metrics" where
  "derive_metrics c =
     (case py_truediv (tp c) (tp c + fp c) of
        Inl e \<Rightarrow> Inl e
      | Inr p \<Rightarrow>
         (case py_truediv (tp c) (tp c + fn c) of
            Inl e \<Rightarrow> Inl e
          | Inr r \<Rightarrow>
             (case py_truediv (2 * tp c) (2 * tp c + fp c + fn c) of
                Inl e \<Rightarrow> Inl e
              | Inr f \<Rightarrow> Inr \<lparr>precision = p, recall = r, fscore = f\<rparr>)))"

definition scorer :: "clone_class list \<Rightarrow> clone_class list \<Rightarrow> py_error + (counters \<times> metrics)" where
  "scorer res gt =
     (case count_all res gt of
        Inl e \<Rightarrow> Inl e
      | Inr c \<Rightarrow> (case derive_metrics c of Inl e \<Rightarrow> Inl e | Inr m \<Rightarrow> Inr (c, m)))"

section \<open>Equivalence-aware name comparison of \<open>comparison/compare.py\<close>\<close>

text \<open>The Known Equivalence Groups: the constant list \<open>jointp\<close> (lines 9-36).\<close>

definition jointp :: "string fset list" where
  "jointp =
    [ {|''md5_finish_ctx'', ''sha1_finish_ctx''|},
      {|''imaxtostr'', ''offtostr'', ''inttostr''|},
      {|''getgroup'', ''getuser''|},
      {|''saferead'', ''safewrite''|},
      {|''getgidbyname'', ''getuidbyname''|},
      {|''imaxtostr'', ''umaxtostr''|},
      {|''sha512_read_ctx'', ''sha224_read_ctx'', ''sha384_read_ctx'', ''sha256_read_ctx'',
        ''sha512_finish_ctx'', ''sha224_finish_ctx'', ''sha384_finish_ctx'', ''sha256_finish_ctx''|},
      {|''output_crc'', ''output_bsd'', ''output_sysv''|},
      {|''quotearg_custom_mem'', ''quotearg_custom'',
        ''quotearg_n_custom_mem'', ''quotearg_n_custom''|},
      {|''quotearg_style'', ''quotearg_style_mem'', ''quotearg_n_style'',
        ''quotearg_n_style_colon'', ''quotearg_n_style_mem''|},
      {|''sha224_buffer'', ''sha256_buffer'',
        ''sha384_buffer'', ''sha512_buffer''|},
      {|''sha256_process_block'', ''sha512_process_block''|},
      {|''ftoastr'', ''dtoastr'', ''ldtoastr''|},
      {|''rev_xstrcoll_width'', ''rev_strcmp_width'',
        ''xstrcoll_width'', ''strcmp_width''|},
      {|''open_safer'', ''openat_safer'', ''opendir_safer''|},
      {|''xstrcoll_atime'', ''xstrcoll_ctime''|},
      {|''quotearg_char'', ''quotearg_char_mem''|},
      {|''xizalloc'', ''xzalloc''|},
      {|''xmemdup'', ''ximemdup'', ''ximemdup0''|},
      {|''fd_safer'', ''fd_safer_flag''|},
      {|''AD_compare'', ''dev_ino_compare'', ''src_to_dest_compare''|} ]"

text \<open>
  Python's \<open>str.find(ch)\<close>: the lowest index at which \<open>ch\<close> occurs, or \<open>-1\<close>.
\<close>

fun py_find :: "char \<Rightarrow> string \<Rightarrow> int" where
  "py_find ch [] = - 1"
| "py_find ch (x # xs) =
     (if x = ch then 0
      else (let i = py_find ch xs in if i < 0 then - 1 else i + 1))"

text \<open>
  \<^verbatim>\<open>
  if '.' in a:
      a = a[a.find('.')+1:]
  \<close>
  The slice start is never negative here, so the slice is a \<open>drop\<close>.
\<close>

definition strip_prefix :: "string \<Rightarrow> string" where
  "strip_prefix a =
     (if CHR ''.'' \<in> set a then drop (nat (py_find (CHR ''.'') a + 1)) a else a)"

type_synonym pair_set = "(string \<times> string) fset"

text \<open>
  \<^verbatim>\<open>
  for subset in jointp:
      if a in subset and b in subset:
          correct_set.add((a,b))
          return
  wrong_set.add((a,b))
  \<close>
  The two mutable sets are passed in and returned as a pair
  \<open>(correct_set, wrong_set)\<close>.
\<close>

fun jointp_loop ::
  "string \<Rightarrow> string \<Rightarrow> string fset list \<Rightarrow> pair_set \<times> pair_set \<Rightarrow> pair_set \<times> pair_set" where
  "jointp_loop a b [] (correct_set, wrong_set) = (correct_set, finsert (a, b) wrong_set)"
| "jointp_loop a b (subset' # rest) (correct_set, wrong_set) =
     (if a |\<in>| subset' \<and> b |\<in>| subset'
      then (finsert (a, b) correct_set, wrong_set)
      else jointp_loop a b rest (correct_set, wrong_set))"

text \<open>
  \<open>compare\<close> (lines 39-53). \<open>a > b\<close> on Python strings is the lexicographic order
  on code points, here the lexicographic order on lists of characters.
\<close>

definition compare :: "string \<Rightarrow> string \<Rightarrow> pair_set \<times> pair_set \<Rightarrow> pair_set \<times> pair_set" where
  "compare a b sets =
     (let a1 = strip_prefix a;
          b1 = strip_prefix b;
          (a2, b2) = (if a1 > b1 then (b1, a1) else (a1, b1))
      in if a2 = b2 \<and> a2 \<noteq> ''main''
         then (finsert (a2, b2) (fst sets), snd sets)
         else jointp_loop a2 b2 jointp sets)"

section \<open>Notions used to state the properties\<close>

text \<open>
  The classes of a collection that reach the scoring code, i.e. those for which the
  \<open>continue\<close> of lines 43-44 (and 60-61) is not taken, in iteration order.
\<close>

definition survivors :: "clone_class list \<Rightarrow> clone_class list" where
  "survivors res = filter (\<lambda>cc. \<not> is_subset cc res) res"

text \<open>
  The subsumption test as the specification words it: the class at position \<open>i\<close> is
  contained, strictly or not, in a different class (another position) of the collection.
\<close>

definition spec_subsumed :: "nat \<Rightarrow> clone_class list \<Rightarrow> bool" where
  "spec_subsumed i classes =
     list_ex (\<lambda>j. j \<noteq> i \<and> classes ! i |\<subseteq>| classes ! j) [0..<length classes]"

text \<open>The Jaccard similarity \<open>|d \<inter> t| / |d \<union> t|\<close> as a number.\<close>

definition jaccard_sim :: "clone_class \<Rightarrow> clone_class \<Rightarrow> rat" where
  "jaccard_sim d t = of_nat (fcard (d |\<inter>| t)) / of_nat (fcard (d |\<union>| t))"

text \<open>
  The best match as the specification words it: the first truth class, in iteration
  order, whose Jaccard similarity with \<open>d\<close> is maximal over all truth classes.
\<close>

definition spec_best_truth :: "clone_class \<Rightarrow> clone_class list \<Rightarrow> clone_class option" where
  "spec_best_truth d truth =
     find (\<lambda>t. \<forall>t' \<in> set truth. jaccard_sim d t' \<le> jaccard_sim d t) truth"

text \<open>
  The set the first pass accounts a detected class \<open>d\<close> against: the first truth class of
  maximal Jaccard similarity when that class shares a member with \<open>d\<close>, and the empty
  set when it does not (then no truth class shares a member with \<open>d\<close>).
\<close>

definition matched_truth :: "clone_class \<Rightarrow> clone_class list \<Rightarrow> clone_class" where
  "matched_truth d truth =
     (case spec_best_truth d truth of
        None \<Rightarrow> {||}
      | Some t \<Rightarrow> if d |\<inter>| t = {||} then {||} else t)"

text \<open>
  Quotients \<open>a / b\<close> of naturals with \<open>a \<le> b \<le> 2^26\<close>: two of them that differ are at
  least \<open>2^(-52)\<close> apart, so that their roundings to doubles differ as well.
\<close>

definition small_quotient :: "rat \<Rightarrow> bool" where
  "small_quotient s = (\<exists>a b :: nat. 0 < b \<and> b \<le> 2 ^ 26 \<and> a \<le> b \<and> s = of_nat a / of_nat b)"

section \<open>Auxiliary facts\<close>

subsection \<open>Rounding to doubles\<close>

lemma round_half_even_error: "\<bar>of_int (round_half_even r) - r\<bar> \<le> 1 / 2"
proof -
  have "of_int \<lfloor>r\<rfloor> \<le> r" "r < of_int \<lfloor>r\<rfloor> + 1"
    by linarith+
  then show ?thesis
    by (auto simp: round_half_even_def Let_def abs_le_iff)
qed

lemma binade_lower: assumes "0 < a" shows "2 powi (binade a) \<le> a"
proof (cases "1 \<le> a")
  case True
  define n where "n = nat \<lfloor>a\<rfloor>"
  from True have n: "0 < n" by (simp add: n_def)
  from floorlog_bounds[OF n, of 2] have "2 ^ (floorlog 2 n - 1) \<le> n" by simp
  then have "(2::rat) ^ (floorlog 2 n - 1) \<le> of_nat n"
    by (metis of_nat_le_iff of_nat_numeral of_nat_power)
  also have "\<dots> \<le> a" using True by (simp add: n_def)
  finally have "(2::rat) ^ (floorlog 2 n - 1) \<le> a" .
  moreover from n have "0 < floorlog 2 n" by (simp add: floorlog_def)
  then have "int (floorlog 2 n) - 1 = int (floorlog 2 n - 1)" by simp
  with True have "binade a = int (floorlog 2 n - 1)"
    by (simp only: binade_def n_def if_True)
  then have "(2::rat) powi (binade a) = 2 ^ (floorlog 2 n - 1)"
    by (simp only: power_int_of_nat)
  ultimately show ?thesis by simp
next
  case False
  define m where "m = nat \<lceil>1 / a\<rceil>"
  define k where "k = floorlog 2 (m - 1)"
  from assms False have "1 < 1 / a" by simp
  then have "2 \<le> \<lceil>1 / a\<rceil>" by linarith
  then have m: "2 \<le> m" unfolding m_def by linarith
  then have "0 < m - 1" by simp
  from floorlog_bounds[OF this, of 2] have "m - 1 < 2 ^ k" by (simp add: k_def)
  then have "m \<le> 2 ^ k" by simp
  then have "(of_nat m :: rat) \<le> 2 ^ k"
    by (metis of_nat_le_iff of_nat_numeral of_nat_power)
  moreover have "1 / a \<le> of_nat m"
  proof -
    have "1 / a \<le> of_int \<lceil>1 / a\<rceil>" by (rule le_of_int_ceiling)
    moreover have "int m = \<lceil>1 / a\<rceil>"
      using \<open>2 \<le> \<lceil>1 / a\<rceil>\<close> unfolding m_def by linarith
    ultimately show ?thesis by (metis of_int_of_nat_eq)
  qed
  ultimately have "1 / a \<le> 2 ^ k" by linarith
  with assms have "1 / 2 ^ k \<le> a"
    by (simp add: field_simps)
  moreover from False have "binade a = - int k"
    by (simp only: binade_def m_def k_def if_False)
  then have "(2::rat) powi (binade a) = 1 / 2 ^ k"
    by (simp add: power_int_minus inverse_eq_divide)
  ultimately show ?thesis by simp
qed

lemma binade_upper: assumes "0 < a" shows "a < 2 powi (binade a + 1)"
proof (cases "1 \<le> a")
  case True
  define n where "n = nat \<lfloor>a\<rfloor>"
  from True have n: "0 < n" by (simp add: n_def)
  from floorlog_bounds[OF n, of 2] have "n < 2 ^ floorlog 2 n" by simp
  then have "n + 1 \<le> 2 ^ floorlog 2 n" by simp
  then have "(of_nat (n + 1) :: rat) \<le> 2 ^ floorlog 2 n"
    by (metis of_nat_le_iff of_nat_numeral of_nat_power)
  moreover have "a < of_nat (n + 1)" using True by (simp add: n_def) linarith
  ultimately have "a < 2 ^ floorlog 2 n" by linarith
  moreover from n have "0 < floorlog 2 n" by (simp add: floorlog_def)
  with True have "binade a + 1 = int (floorlog 2 n)"
    by (simp add: binade_def n_def)
  then have "(2::rat) powi (binade a + 1) = 2 ^ floorlog 2 n"
    by (simp only: power_int_of_nat)
  ultimately show ?thesis by simp
next
  case False
  define m where "m = nat \<lceil>1 / a\<rceil>"
  define k where "k = floorlog 2 (m - 1)"
  from assms False have "1 < 1 / a" by simp
  then have "2 \<le> \<lceil>1 / a\<rceil>" by linarith
  then have m: "2 \<le> m" unfolding m_def by linarith
  then have pos: "0 < m - 1" by simp
  then have k: "0 < k" by (simp add: k_def floorlog_def)
  from floorlog_bounds[OF pos, of 2] have "2 ^ (k - 1) \<le> m - 1" by (simp add: k_def)
  then have "(2::rat) ^ (k - 1) \<le> of_nat (m - 1)"
    by (metis of_nat_le_iff of_nat_numeral of_nat_power)
  moreover have "of_nat (m - 1) < 1 / a"
  proof -
    have "of_int (\<lceil>1 / a\<rceil> - 1) < 1 / a" by linarith
    moreover have "int (m - 1) = \<lceil>1 / a\<rceil> - 1"
      using m \<open>2 \<le> \<lceil>1 / a\<rceil>\<close> unfolding m_def by linarith
    ultimately show ?thesis by (metis of_int_of_nat_eq)
  qed
  ultimately have "2 ^ (k - 1) < 1 / a" by linarith
  with assms have "a < 1 / 2 ^ (k - 1)"
    by (simp add: field_simps)
  moreover from False have "binade a = - int k"
    by (simp only: binade_def m_def k_def if_False)
  with k have "binade a + 1 = - int (k - 1)" by simp
  then have "(2::rat) powi (binade a + 1) = 1 / 2 ^ (k - 1)"
    by (simp add: power_int_minus inverse_eq_divide)
  ultimately show ?thesis by simp
qed

lemma binade_below_one: assumes "0 < a" "a < 1" shows "binade a \<le> - 1"
proof -
  have "\<not> 0 \<le> binade a"
  proof
    assume "0 \<le> binade a"
    then have "(2::rat) powi 0 \<le> 2 powi (binade a)"
      by (intro power_int_increasing) auto
    with binade_lower[OF assms(1)] assms(2) show False by simp
  qed
  then show ?thesis by simp
qed

lemma double_round_zero: "double_round 0 = 0"
  by (simp add: double_round_def)

lemma double_round_one: "double_round 1 = 1"
  by code_simp

lemma double_round_error:
  assumes "0 \<le> x" and "x \<le> 1"
  shows "\<bar>double_round x - x\<bar> \<le> 1 / 2 ^ 54"
proof -
  consider "x = 0" | "x = 1" | "0 < x" "x < 1" using assms by fastforce
  then show ?thesis
  proof cases
    case 1
    then show ?thesis by (simp add: double_round_zero)
  next
    case 2
    then show ?thesis by (simp add: double_round_one)
  next
    case 3
    define E where "E = max (binade x) (- 1022)"
    define ulp :: rat where "ulp = 2 powi (E - 52)"
    from binade_below_one[OF 3] have "E \<le> - 1" by (simp add: E_def)
    then have "ulp \<le> 2 powi (- 53)"
      unfolding ulp_def by (intro power_int_increasing) auto
    moreover have "(2::rat) powi (- 53) = 1 / 2 ^ 53"
      by (simp add: power_int_minus inverse_eq_divide)
    ultimately have ulp_le: "ulp \<le> 1 / 2 ^ 53"
      by (simp only:)
    have ulp_pos: "0 < ulp" by (simp add: ulp_def)
    have dr: "double_round x = of_int (round_half_even (x / ulp)) * ulp"
      using 3 by (simp add: double_round_def Let_def E_def ulp_def)
    have "double_round x - x = (of_int (round_half_even (x / ulp)) - x / ulp) * ulp"
      using ulp_pos by (simp add: dr field_simps)
    then have "\<bar>double_round x - x\<bar> = \<bar>of_int (round_half_even (x / ulp)) - x / ulp\<bar> * ulp"
      using ulp_pos by (simp add: abs_mult)
    also have "\<dots> \<le> (1 / 2) * ulp"
      using round_half_even_error[of "x / ulp"] ulp_pos by (intro mult_right_mono) auto
    also have "\<dots> \<le> (1 / 2) * (1 / 2 ^ 53)"
      using ulp_le by (intro mult_left_mono) auto
    also have "\<dots> = 1 / 2 ^ 54"
      by simp
    finally show ?thesis .
  qed
qed

lemma double_round_strict_mono_gap:
  assumes "0 \<le> x" and "y \<le> 1" and "x + 1 / 2 ^ 52 \<le> y"
  shows "double_round x < double_round y"
proof -
  have x1: "x \<le> 1" and y0: "0 \<le> y" using assms by auto
  define eps :: rat where "eps = 1 / 2 ^ 54"
  have e: "1 / 2 ^ 52 = 4 * eps"
    unfolding eps_def by simp
  have "0 < eps" by (simp add: eps_def)
  have "\<bar>double_round x - x\<bar> \<le> eps" "\<bar>double_round y - y\<bar> \<le> eps"
    unfolding eps_def by (rule double_round_error[OF assms(1) x1], rule double_round_error[OF y0 assms(2)])
  moreover have "x + 4 * eps \<le> y" using assms(3) unfolding e .
  ultimately show ?thesis using \<open>0 < eps\<close> by linarith
qed

lemma quotient_gap:
  fixes a b c d :: nat
  assumes "0 < b" "0 < d" "b \<le> 2 ^ 26" "d \<le> 2 ^ 26"
    and "(of_nat a :: rat) / of_nat b < of_nat c / of_nat d"
  shows "(of_nat a :: rat) / of_nat b + 1 / 2 ^ 52 \<le> of_nat c / of_nat d"
proof -
  from assms(1,2,5) have "(of_nat (a * d) :: rat) < of_nat (c * b)"
    by (simp add: field_simps)
  then have "a * d < c * b" by (simp only: of_nat_less_iff)
  then have "a * d + 1 \<le> c * b" by simp
  then have "(of_nat (a * d + 1) :: rat) \<le> of_nat (c * b)" by (simp only: of_nat_le_iff)
  then have *: "(of_nat a :: rat) * of_nat d + 1 \<le> of_nat c * of_nat b" by simp
  have "b * d \<le> 2 ^ 26 * 2 ^ 26" using assms(3,4) by (rule mult_le_mono)
  then have "(of_nat (b * d) :: rat) \<le> of_nat (2 ^ 26 * 2 ^ 26)" by (simp only: of_nat_le_iff)
  moreover have "(of_nat (2 ^ 26 * 2 ^ 26) :: rat) = 2 ^ 52" by simp
  ultimately have bd: "(of_nat b :: rat) * of_nat d \<le> 2 ^ 52" by (simp only: of_nat_mult)
  have pos: "(0::rat) < of_nat b * of_nat d" using assms(1,2) by simp
  have "(1::rat) / 2 ^ 52 \<le> 1 / (of_nat b * of_nat d)"
    using bd pos assms(1,2) by (intro divide_left_mono mult_pos_pos zero_less_power) simp_all
  also have "\<dots> \<le> of_nat c / of_nat d - of_nat a / of_nat b"
  proof -
    have "of_nat c / of_nat d - of_nat a / of_nat b = (of_nat c * of_nat b - of_nat a * of_nat d) / (of_nat b * of_nat d :: rat)"
      using assms(1,2) by (simp add: field_simps)
    moreover have "(1::rat) \<le> of_nat c * of_nat b - of_nat a * of_nat d" using * by simp
    ultimately show ?thesis using pos by (simp only: divide_right_mono less_imp_le)
  qed
  finally show ?thesis by linarith
qed

lemma small_quotient_zero: "small_quotient 0"
  unfolding small_quotient_def by (rule exI[of _ 0], rule exI[of _ 1]) simp

lemma small_quotient_less:
  assumes "small_quotient x" and "small_quotient y" and "x < y"
  shows "double_round x < double_round y"
proof -
  from assms(1) obtain a b :: nat where
    x: "0 < b" "b \<le> 2 ^ 26" "a \<le> b" "x = of_nat a / of_nat b"
    unfolding small_quotient_def by blast
  from assms(2) obtain c d :: nat where
    y: "0 < d" "d \<le> 2 ^ 26" "c \<le> d" "y = of_nat c / of_nat d"
    unfolding small_quotient_def by blast
  have "0 \<le> x" using x by simp
  moreover have "y \<le> 1" using y by simp
  moreover have "x + 1 / 2 ^ 52 \<le> y"
    using quotient_gap[OF x(1) y(1) x(2) y(2)] assms(3) unfolding x(4) y(4) by blast
  ultimately show ?thesis by (rule double_round_strict_mono_gap)
qed

text \<open>On such quotients the comparison of the doubles is the comparison of the quotients.\<close>

lemma small_quotient_less_iff:
  assumes "small_quotient x" and "small_quotient y"
  shows "(double_round x < double_round y) = (x < y)"
proof
  assume "x < y"
  with assms show "double_round x < double_round y" by (rule small_quotient_less)
next
  assume l: "double_round x < double_round y"
  show "x < y"
  proof (rule ccontr)
    assume "\<not> x < y"
    then consider "x = y" | "y < x" by fastforce
    then show False
    proof cases
      case 1
      with l show False by simp
    next
      case 2
      from small_quotient_less[OF assms(2,1) 2] l show False by simp
    qed
  qed
qed

text \<open>
  Beyond that size the doubles can tie where the quotients differ: these are the
  similarities of a class of \<open>2^27\<close> members with a truth class that lacks one of them,
  and with a truth class that has one member more.
\<close>

lemma double_round_tie:
  "(2 ^ 27 - 1) / 2 ^ 27 < (2 ^ 27 / (2 ^ 27 + 1) :: rat) \<and>
   double_round ((2 ^ 27 - 1) / 2 ^ 27) = double_round (2 ^ 27 / (2 ^ 27 + 1))"
  by code_simp

subsection \<open>The subsumption test and the loops\<close>

lemma subset_loop_iff:
  "subset_loop cc res b = (b \<or> (\<exists>set2 \<in> set res. cc |\<subset>| set2))"
  by (induction res arbitrary: b) (auto simp: less_fset_def)

lemma is_subset_iff: "is_subset cc res = (\<exists>set2 \<in> set res. cc |\<subset>| set2)"
  by (simp add: is_subset_def subset_loop_iff)

text \<open>Both loops do nothing for a class that is skipped.\<close>

lemma detected_loop_skips:
  "detected_loop res gt xs c = detected_loop res gt (filter (\<lambda>cc. \<not> is_subset cc res) xs) c"
  by (induction xs arbitrary: c) (auto simp: detected_step_def split: sum.splits)

lemma truth_loop_skips:
  "truth_loop res gt xs c = truth_loop res gt (filter (\<lambda>cc. \<not> is_subset cc gt) xs) c"
  by (induction xs arbitrary: c) (auto simp: truth_step_def)

text \<open>Hence the first pass scores exactly the surviving classes, in order.\<close>

lemma detected_loop_survivors:
  "detected_loop res gt res c = detected_loop res gt (survivors res) c"
  unfolding survivors_def by (rule detected_loop_skips)

lemma truth_loop_survivors:
  "truth_loop res gt gt c = truth_loop res gt (survivors gt) c"
  unfolding survivors_def by (rule truth_loop_skips)

lemma is_subset_survivors:
  "cc \<in> set (survivors res) \<Longrightarrow> \<not> is_subset cc (survivors res)"
  by (auto simp: survivors_def is_subset_iff)

lemma jaccard_zero_loop:
  "\<forall>t \<in> set gt. jaccard d t = Inr 0 \<Longrightarrow>
   best_jaccard_loop d gt (0, best_other) = Inr (0, best_other)"
  by (induction gt) auto

lemma jaccard_sim_small:
  assumes "d \<noteq> {||}" and "fcard (d |\<union>| t) \<le> 2 ^ 26"
  shows "small_quotient (jaccard_sim d t)"
proof -
  from assms(1) have "0 < fcard (d |\<union>| t)"
    using fcard_0_eq[of "d |\<union>| t"] by auto
  moreover have "fcard (d |\<inter>| t) \<le> fcard (d |\<union>| t)"
    by (rule fcard_mono) auto
  ultimately show ?thesis
    using assms(2) unfolding small_quotient_def jaccard_sim_def by blast
qed

lemma jaccard_nonempty: "d \<noteq> {||} \<Longrightarrow> jaccard d t = Inr (jaccard_sim d t)"
  by (simp add: jaccard_def jaccard_sim_def py_truediv_def Let_def fcard_0_eq)

lemma account_empty:
  "account d {||} c = \<lparr>tp = tp c, fp = fp c + int (fcard d), fn = fn c\<rparr>"
  by (simp add: account_def)

text \<open>
  The Jaccard loop, started from any \<open>(best_score, best_other)\<close>: it ends with an upper
  bound of all similarities, and either nothing changed or the result is the first class
  of the list that reaches the final score.
\<close>

lemma best_jaccard_loop_char:
  assumes "d \<noteq> {||}" and "\<forall>t \<in> set ts. fcard (d |\<union>| t) \<le> 2 ^ 26" and "small_quotient s"
  shows "\<exists>s' t'. best_jaccard_loop d ts (s, t0) = Inr (s', t') \<and>
           (\<forall>t \<in> set ts. jaccard_sim d t \<le> s') \<and>
           ((s' = s \<and> t' = t0) \<or>
            (s < s' \<and> find (\<lambda>t. s' \<le> jaccard_sim d t) ts = Some t' \<and> jaccard_sim d t' = s'))"
  using assms(2,3)
proof (induction ts arbitrary: s t0)
  case Nil
  then show ?case by simp
next
  case (Cons t ts)
  from Cons.prems(1) have sm: "small_quotient (jaccard_sim d t)"
    by (simp add: jaccard_sim_small[OF assms(1)])
  from Cons.prems(1) have rest: "\<forall>x \<in> set ts. fcard (d |\<union>| x) \<le> 2 ^ 26"
    by simp
  have cmp: "(double_round s < double_round (jaccard_sim d t)) = (s < jaccard_sim d t)"
    by (rule small_quotient_less_iff[OF Cons.prems(2) sm])
  show ?case
  proof (cases "jaccard_sim d t > s")
    case True
    from Cons.IH[OF rest sm, of t] obtain s' t' where
      r: "best_jaccard_loop d ts (jaccard_sim d t, t) = Inr (s', t')"
      and ub: "\<forall>x \<in> set ts. jaccard_sim d x \<le> s'"
      and d: "(s' = jaccard_sim d t \<and> t' = t) \<or>
            (jaccard_sim d t < s' \<and> find (\<lambda>x. s' \<le> jaccard_sim d x) ts = Some t' \<and> jaccard_sim d t' = s')"
      by blast
    from r True cmp have "best_jaccard_loop d (t # ts) (s, t0) = Inr (s', t')"
      by (simp add: jaccard_nonempty[OF assms(1)])
    moreover from d ub have "\<forall>x \<in> set (t # ts). jaccard_sim d x \<le> s'" by auto
    moreover from d True have "s < s' \<and> find (\<lambda>x. s' \<le> jaccard_sim d x) (t # ts) = Some t' \<and> jaccard_sim d t' = s'"
      by auto
    ultimately show ?thesis by blast
  next
    case False
    from Cons.IH[OF rest Cons.prems(2), of t0] obtain s' t' where
      r: "best_jaccard_loop d ts (s, t0) = Inr (s', t')"
      and ub: "\<forall>x \<in> set ts. jaccard_sim d x \<le> s'"
      and d: "(s' = s \<and> t' = t0) \<or>
            (s < s' \<and> find (\<lambda>x. s' \<le> jaccard_sim d x) ts = Some t' \<and> jaccard_sim d t' = s')"
      by blast
    from r False cmp have "best_jaccard_loop d (t # ts) (s, t0) = Inr (s', t')"
      by (simp add: jaccard_nonempty[OF assms(1)])
    moreover from d ub False have "\<forall>x \<in> set (t # ts). jaccard_sim d x \<le> s'" by auto
    moreover from d False have "(s' = s \<and> t' = t0) \<or> (s < s' \<and> find (\<lambda>x. s' \<le> jaccard_sim d x) (t # ts) = Some t' \<and> jaccard_sim d t' = s')"
      by auto
    ultimately show ?thesis by blast
  qed
qed

lemma fcard_pos_iff: "(0 < fcard A) = (A \<noteq> {||})"
  using fcard_0_eq[of A] by linarith

lemma jaccard_sim_pos_iff: "d \<noteq> {||} \<Longrightarrow> (0 < jaccard_sim d t) = (d |\<inter>| t \<noteq> {||})"
  by (simp add: jaccard_sim_def zero_less_divide_iff fcard_pos_iff)

lemma best_jaccard_overlap:
  assumes "d \<noteq> {||}" and "\<exists>t \<in> set truth. d |\<inter>| t \<noteq> {||}"
    and "\<forall>t \<in> set truth. fcard (d |\<union>| t) \<le> 2 ^ 26"
  shows "\<exists>t. spec_best_truth d truth = Some t \<and> best_jaccard d truth = Inr (jaccard_sim d t, t)
     \<and> t \<in> set truth \<and> 0 < jaccard_sim d t"
proof -
  from best_jaccard_loop_char[OF assms(1,3) small_quotient_zero, of "{||}"] obtain s' t' where
    r: "best_jaccard_loop d truth (0, {||}) = Inr (s', t')"
    and ub: "\<forall>t \<in> set truth. jaccard_sim d t \<le> s'"
    and d: "(s' = 0 \<and> t' = {||}) \<or>
            (0 < s' \<and> find (\<lambda>t. s' \<le> jaccard_sim d t) truth = Some t' \<and> jaccard_sim d t' = s')"
    by blast
  from assms(1,2) obtain t where "t \<in> set truth" "0 < jaccard_sim d t"
    using jaccard_sim_pos_iff by blast
  with ub have "0 < s'" by fastforce
  with d have pos: "0 < s'" and f: "find (\<lambda>t. s' \<le> jaccard_sim d t) truth = Some t'"
    and s': "jaccard_sim d t' = s'" by auto
  from f have mem: "t' \<in> set truth"
    by (auto simp: find_Some_iff)
  have "find (\<lambda>t. \<forall>x \<in> set truth. jaccard_sim d x \<le> jaccard_sim d t) truth
        = find (\<lambda>t. s' \<le> jaccard_sim d t) truth"
  proof (rule find_cong[OF refl])
    fix x assume "x \<in> set truth"
    show "(\<forall>y \<in> set truth. jaccard_sim d y \<le> jaccard_sim d x) = (s' \<le> jaccard_sim d x)"
      using ub mem s' by force
  qed
  with f have "spec_best_truth d truth = Some t'"
    by (simp add: spec_best_truth_def)
  with r s' pos mem show ?thesis
    by (auto simp: best_jaccard_def)
qed

lemma spec_best_truth_mem: "spec_best_truth d truth = Some t \<Longrightarrow> t \<in> set truth"
  by (auto simp: spec_best_truth_def find_Some_iff)

text \<open>The class selected by the Jaccard loop is \<open>matched_truth\<close>.\<close>

lemma best_jaccard_matched:
  assumes "d \<noteq> {||}" and "\<forall>t \<in> set truth. fcard (d |\<union>| t) \<le> 2 ^ 26"
  shows "(\<exists>s. best_jaccard d truth = Inr (s, matched_truth d truth)) \<and>
         (if \<exists>t \<in> set truth. d |\<inter>| t \<noteq> {||}
          then spec_best_truth d truth = Some (matched_truth d truth)
          else matched_truth d truth = {||})"
proof (cases "\<exists>t \<in> set truth. d |\<inter>| t \<noteq> {||}")
  case True
  from best_jaccard_overlap[OF assms(1) True assms(2)] obtain t where
    t: "spec_best_truth d truth = Some t" "best_jaccard d truth = Inr (jaccard_sim d t, t)"
      "0 < jaccard_sim d t"
    by blast
  from t(3) have "d |\<inter>| t \<noteq> {||}"
    by (simp add: jaccard_sim_pos_iff[OF assms(1)])
  with t(1) have "matched_truth d truth = t"
    by (simp add: matched_truth_def)
  with t(1,2) True show ?thesis by simp
next
  case False
  then have disj: "\<forall>t \<in> set truth. d |\<inter>| t = {||}" by blast
  with assms(1) have "\<forall>t \<in> set truth. jaccard d t = Inr 0"
    by (simp add: jaccard_nonempty jaccard_sim_def)
  then have b: "best_jaccard d truth = Inr (0, {||})"
    by (simp add: best_jaccard_def jaccard_zero_loop)
  have "matched_truth d truth = {||}"
  proof (cases "spec_best_truth d truth")
    case None
    then show ?thesis by (simp add: matched_truth_def)
  next
    case (Some t)
    with disj spec_best_truth_mem[OF Some] show ?thesis
      by (simp add: matched_truth_def)
  qed
  with b False show ?thesis by simp
qed

lemma detected_step_matched:
  assumes "\<not> is_subset d res" and "d \<noteq> {||}"
    and "\<forall>t \<in> set truth. fcard (d |\<union>| t) \<le> 2 ^ 26"
  shows "detected_step res truth d c = Inr (account d (matched_truth d truth) c)"
proof -
  from best_jaccard_matched[OF assms(2,3)] obtain s where
    "best_jaccard d truth = Inr (s, matched_truth d truth)"
    by blast
  with assms(1) show ?thesis
    by (simp add: detected_step_def)
qed

text \<open>
  The first pass as a whole: the counters grow by the sums, over the classes that are
  not skipped, of the three sizes taken against \<open>matched_truth\<close>.
\<close>

lemma detected_loop_sums:
  assumes "\<forall>d \<in> set xs. \<not> is_subset d res \<longrightarrow>
             d \<noteq> {||} \<and> (\<forall>t \<in> set truth. fcard (d |\<union>| t) \<le> 2 ^ 26)"
  shows "detected_loop res truth xs c =
     Inr \<lparr>tp = tp c + sum_list (map (\<lambda>d. int (fcard (d |\<inter>| matched_truth d truth)))
                                  (filter (\<lambda>d. \<not> is_subset d res) xs)),
          fp = fp c + sum_list (map (\<lambda>d. int (fcard (d |-| matched_truth d truth)))
                                  (filter (\<lambda>d. \<not> is_subset d res) xs)),
          fn = fn c + sum_list (map (\<lambda>d. int (fcard (matched_truth d truth |-| d)))
                                  (filter (\<lambda>d. \<not> is_subset d res) xs))\<rparr>"
  using assms
proof (induction xs arbitrary: c)
  case Nil
  then show ?case by simp
next
  case (Cons x xs)
  from Cons.prems have rest: "\<forall>d \<in> set xs. \<not> is_subset d res \<longrightarrow>
             d \<noteq> {||} \<and> (\<forall>t \<in> set truth. fcard (d |\<union>| t) \<le> 2 ^ 26)"
    by simp
  show ?case
  proof (cases "is_subset x res")
    case True
    then have "detected_step res truth x c = Inr c"
      by (simp add: detected_step_def)
    with True Cons.IH[OF rest, of c] show ?thesis by simp
  next
    case False
    with Cons.prems have "x \<noteq> {||}" "\<forall>t \<in> set truth. fcard (x |\<union>| t) \<le> 2 ^ 26"
      by auto
    from detected_step_matched[OF False this]
    have "detected_step res truth x c = Inr (account x (matched_truth x truth) c)" .
    with False Cons.IH[OF rest, of "account x (matched_truth x truth) c"] show ?thesis
      by (simp add: account_def)
  qed
qed

text \<open>The overlap loop of the second pass, started from any state.\<close>

lemma best_overlap_loop_char:
  "\<exists>s' r'. best_overlap_loop t rs (s, r0) = (s', r') \<and>
           (\<forall>r \<in> set rs. of_nat (fcard (t |\<inter>| r)) \<le> s') \<and>
           ((s' = s \<and> r' = r0) \<or>
            (s < s' \<and> r' \<in> set rs \<and> of_nat (fcard (t |\<inter>| r')) = s'))"
proof (induction rs arbitrary: s r0)
  case Nil
  then show ?case by simp
next
  case (Cons r rs)
  let ?k = "of_nat (fcard (t |\<inter>| r)) :: rat"
  show ?case
  proof (cases "?k > s")
    case True
    from Cons.IH[of ?k r] obtain s' r' where
      "best_overlap_loop t rs (?k, r) = (s', r')"
      "\<forall>x \<in> set rs. of_nat (fcard (t |\<inter>| x)) \<le> s'"
      "(s' = ?k \<and> r' = r) \<or> (?k < s' \<and> r' \<in> set rs \<and> of_nat (fcard (t |\<inter>| r')) = s')"
      by blast
    with True show ?thesis
      by (auto simp: Let_def)
  next
    case False
    from Cons.IH[of s r0] obtain s' r' where
      "best_overlap_loop t rs (s, r0) = (s', r')"
      "\<forall>x \<in> set rs. of_nat (fcard (t |\<inter>| x)) \<le> s'"
      "(s' = s \<and> r' = r0) \<or> (s < s' \<and> r' \<in> set rs \<and> of_nat (fcard (t |\<inter>| r')) = s')"
      by blast
    with False show ?thesis
      by (auto simp: Let_def)
  qed
qed

lemma truth_step_char:
  assumes "\<not> is_subset t truth"
  shows "\<exists>best_score best_other.
           best_overlap t res = (best_score, best_other) \<and>
           (\<forall>r \<in> set res. of_nat (fcard (t |\<inter>| r)) \<le> best_score) \<and>
           (if \<forall>r \<in> set res. t |\<inter>| r = {||}
            then best_score = 0 \<and>
                 truth_step res truth t c = \<lparr>tp = tp c, fp = fp c, fn = fn c + int (fcard t)\<rparr>
            else best_other \<in> set res \<and>
                 best_score = of_nat (fcard (t |\<inter>| best_other)) \<and> 0 < best_score \<and>
                 truth_step res truth t c = c)"
proof -
  from best_overlap_loop_char[of t res 0 "{||}"] obtain s' r' where
    r: "best_overlap t res = (s', r')"
    and ub: "\<forall>r \<in> set res. of_nat (fcard (t |\<inter>| r)) \<le> s'"
    and d: "(s' = 0 \<and> r' = {||}) \<or> (0 < s' \<and> r' \<in> set res \<and> of_nat (fcard (t |\<inter>| r')) = s')"
    unfolding best_overlap_def by blast
  show ?thesis
  proof (cases "\<forall>r \<in> set res. t |\<inter>| r = {||}")
    case True
    with d have "s' = 0" by auto
    with r ub True assms show ?thesis
      by (simp add: truth_step_def)
  next
    case False
    then obtain x where "x \<in> set res" "t |\<inter>| x \<noteq> {||}" by blast
    then have "0 < (of_nat (fcard (t |\<inter>| x)) :: rat)"
      by (simp add: fcard_pos_iff)
    with ub \<open>x \<in> set res\<close> have "0 < s'" by fastforce
    with d r ub False assms show ?thesis
      by (auto simp: truth_step_def)
  qed
qed

lemma truth_step_cases:
  "truth_step res truth t c =
     (if \<not> is_subset t truth \<and> (\<forall>r \<in> set res. t |\<inter>| r = {||})
      then \<lparr>tp = tp c, fp = fp c, fn = fn c + int (fcard t)\<rparr> else c)"
proof (cases "is_subset t truth")
  case True
  then show ?thesis by (simp add: truth_step_def)
next
  case False
  from truth_step_char[OF False, of res c] False show ?thesis
    by (auto split: if_splits)
qed

text \<open>
  The second pass as a whole: \<open>fn\<close> grows by the sizes of the classes that are not
  skipped and share no member with any detected class; \<open>tp\<close> and \<open>fp\<close> do not change.
\<close>

lemma truth_loop_sums:
  "truth_loop res truth xs c =
     \<lparr>tp = tp c, fp = fp c,
      fn = fn c + sum_list (map (\<lambda>t. int (fcard t))
                 (filter (\<lambda>t. \<not> is_subset t truth \<and> (\<forall>r \<in> set res. t |\<inter>| r = {||})) xs))\<rparr>"
proof (induction xs arbitrary: c)
  case Nil
  then show ?case by simp
next
  case (Cons x xs)
  show ?case
    by (simp add: Cons.IH truth_step_cases)
qed

text \<open>A non-empty collection has a class that survives the filter (one of largest size).\<close>

lemma exists_survivor:
  assumes "res \<noteq> []"
  shows "\<exists>d \<in> set res. \<not> is_subset d res"
proof -
  from assms have ne: "fcard ` set res \<noteq> {}" by simp
  have fin: "finite (fcard ` set res)" by simp
  from Max_in[OF fin ne] obtain d where d: "d \<in> set res" "fcard d = Max (fcard ` set res)"
    by auto
  have "\<not> is_subset d res"
  proof
    assume "is_subset d res"
    then obtain s where s: "s \<in> set res" "d |\<subset>| s"
      by (auto simp: is_subset_iff)
    then have "fcard d < fcard s" by (simp add: pfsubset_fcard_mono)
    moreover from s(1) have "fcard s \<le> Max (fcard ` set res)" by simp
    ultimately show False using d(2) by simp
  qed
  with d(1) show ?thesis by blast
qed

text \<open>
  In a collection that has a non-empty class, the empty class is a strict subset of it,
  so every surviving class is non-empty.
\<close>

lemma survivor_nonempty:
  assumes "s \<in> set res" and "s \<noteq> {||}" and "\<not> is_subset d res"
  shows "d \<noteq> {||}"
proof
  assume "d = {||}"
  with assms(2) have "d |\<subset>| s"
    by (auto simp: less_fset_def)
  with assms(1,3) show False
    by (auto simp: is_subset_iff)
qed

lemma detected_step_disjoint:
  assumes "\<not> is_subset d res \<longrightarrow> d \<noteq> {||}" and "\<forall>t \<in> set gt. d |\<inter>| t = {||}"
  shows "detected_step res gt d c =
           Inr (if is_subset d res then c
                else \<lparr>tp = tp c, fp = fp c + int (fcard d), fn = fn c\<rparr>)"
proof (cases "is_subset d res")
  case True
  then show ?thesis
    by (simp add: detected_step_def)
next
  case False
  with assms have "\<forall>t \<in> set gt. jaccard d t = Inr 0"
    by (simp add: jaccard_nonempty jaccard_sim_def)
  then have "best_jaccard d gt = Inr (0, {||})"
    by (simp add: best_jaccard_def jaccard_zero_loop)
  with False show ?thesis
    by (simp add: detected_step_def account_empty)
qed

lemma detected_loop_disjoint:
  assumes "\<forall>d \<in> set xs. \<not> is_subset d res \<longrightarrow> d \<noteq> {||}" and "\<forall>d \<in> set xs. \<forall>t \<in> set gt. d |\<inter>| t = {||}"
  shows "\<exists>c'. detected_loop res gt xs c = Inr c' \<and> tp c' = tp c \<and> fn c' = fn c \<and>
           fp c \<le> fp c' \<and> (\<forall>d \<in> set xs. \<not> is_subset d res \<longrightarrow> fp c < fp c')"
  using assms
proof (induction xs arbitrary: c)
  case Nil
  then show ?case by simp
next
  case (Cons x xs)
  let ?c1 = "if is_subset x res then c else \<lparr>tp = tp c, fp = fp c + int (fcard x), fn = fn c\<rparr>"
  from Cons.prems have x: "\<not> is_subset x res \<longrightarrow> x \<noteq> {||}" "\<forall>t \<in> set gt. x |\<inter>| t = {||}"
    by auto
  have step: "detected_step res gt x c = Inr ?c1"
    by (rule detected_step_disjoint[OF x])
  from Cons.prems have "\<forall>d \<in> set xs. \<not> is_subset d res \<longrightarrow> d \<noteq> {||}"
    "\<forall>d \<in> set xs. \<forall>t \<in> set gt. d |\<inter>| t = {||}"
    by auto
  from Cons.IH[OF this, of ?c1] obtain c' where
    c': "detected_loop res gt xs ?c1 = Inr c'" "tp c' = tp ?c1" "fn c' = fn ?c1" "fp ?c1 \<le> fp c'"
      "\<forall>d \<in> set xs. \<not> is_subset d res \<longrightarrow> fp ?c1 < fp c'"
    by blast
  from x(1) have pos: "\<not> is_subset x res \<Longrightarrow> 0 < int (fcard x)"
    by (simp add: fcard_pos_iff)
  have "detected_loop res gt (x # xs) c = Inr c'"
    using step c'(1) by simp
  moreover have "tp c' = tp c" "fn c' = fn c" using c'(2,3) by (auto split: if_splits)
  moreover have le: "fp c \<le> fp ?c1" by simp
  then have "fp c \<le> fp c'" using c'(4) by linarith
  moreover have "\<forall>d \<in> set (x # xs). \<not> is_subset d res \<longrightarrow> fp c < fp c'"
  proof (intro ballI impI)
    fix d assume "d \<in> set (x # xs)" "\<not> is_subset d res"
    then consider "d = x" | "d \<in> set xs" by auto
    then show "fp c < fp c'"
    proof cases
      case 1
      with \<open>\<not> is_subset d res\<close> pos have "fp c < fp ?c1" by simp
      with c'(4) show ?thesis by linarith
    next
      case 2
      with c'(5) \<open>\<not> is_subset d res\<close> have "fp ?c1 < fp c'" by blast
      with le show ?thesis by linarith
    qed
  qed
  ultimately show ?case by blast
qed

lemma overlap_zero_loop:
  "\<forall>r \<in> set res. t |\<inter>| r = {||} \<Longrightarrow> best_overlap_loop t res (0, b) = (0, b)"
  by (induction res) (auto simp: fcard_fempty)

lemma truth_step_disjoint:
  assumes "\<forall>r \<in> set res. t |\<inter>| r = {||}"
  shows "truth_step res gt t c =
           (if is_subset t gt then c else \<lparr>tp = tp c, fp = fp c, fn = fn c + int (fcard t)\<rparr>)"
  using assms by (simp add: truth_step_def best_overlap_def overlap_zero_loop)

lemma truth_loop_disjoint:
  assumes "\<forall>t \<in> set xs. \<not> is_subset t gt \<longrightarrow> t \<noteq> {||}" and "\<forall>t \<in> set xs. \<forall>r \<in> set res. t |\<inter>| r = {||}"
  shows "tp (truth_loop res gt xs c) = tp c \<and> fp (truth_loop res gt xs c) = fp c \<and>
         fn c \<le> fn (truth_loop res gt xs c) \<and>
         (\<forall>t \<in> set xs. \<not> is_subset t gt \<longrightarrow> fn c < fn (truth_loop res gt xs c))"
  using assms
proof (induction xs arbitrary: c)
  case Nil
  then show ?case by simp
next
  case (Cons x xs)
  let ?c1 = "if is_subset x gt then c else \<lparr>tp = tp c, fp = fp c, fn = fn c + int (fcard x)\<rparr>"
  let ?r = "truth_loop res gt xs ?c1"
  from Cons.prems have x: "\<not> is_subset x gt \<longrightarrow> x \<noteq> {||}" "\<forall>r \<in> set res. x |\<inter>| r = {||}"
    by auto
  have step: "truth_step res gt x c = ?c1"
    by (rule truth_step_disjoint[OF x(2)])
  then have unf: "truth_loop res gt (x # xs) c = ?r" by simp
  from Cons.prems have "\<forall>t \<in> set xs. \<not> is_subset t gt \<longrightarrow> t \<noteq> {||}"
    "\<forall>t \<in> set xs. \<forall>r \<in> set res. t |\<inter>| r = {||}"
    by auto
  from Cons.IH[OF this, of ?c1] have
    ih: "tp ?r = tp ?c1" "fp ?r = fp ?c1" "fn ?c1 \<le> fn ?r"
      "\<forall>t \<in> set xs. \<not> is_subset t gt \<longrightarrow> fn ?c1 < fn ?r"
    by blast+
  from x(1) have pos: "\<not> is_subset x gt \<Longrightarrow> 0 < int (fcard x)"
    by (simp add: fcard_pos_iff)
  have le: "fn c \<le> fn ?c1" by simp
  have "tp ?r = tp c" "fp ?r = fp c" using ih(1,2) by (auto split: if_splits)
  moreover have "fn c \<le> fn ?r" using le ih(3) by linarith
  moreover have "\<forall>t \<in> set (x # xs). \<not> is_subset t gt \<longrightarrow> fn c < fn ?r"
  proof (intro ballI impI)
    fix t assume "t \<in> set (x # xs)" "\<not> is_subset t gt"
    then consider "t = x" | "t \<in> set xs" by auto
    then show "fn c < fn ?r"
    proof cases
      case 1
      with \<open>\<not> is_subset t gt\<close> pos have "fn c < fn ?c1" by simp
      with ih(3) show ?thesis by linarith
    next
      case 2
      with ih(4) \<open>\<not> is_subset t gt\<close> have "fn ?c1 < fn ?r" by blast
      with le show ?thesis by linarith
    qed
  qed
  ultimately show ?case unfolding unf by blast
qed

text \<open>Facts about \<open>str.find\<close>, the prefix stripping and the loop over \<open>jointp\<close>.\<close>

lemma py_find_absent: "ch \<notin> set a \<Longrightarrow> py_find ch a = - 1"
  by (induction a) auto

lemma py_find_first: "ch \<notin> set p \<Longrightarrow> py_find ch (p @ ch # s) = int (length p)"
  by (induction p) (auto simp: Let_def)

lemma strip_prefix_first_dot:
  "CHR ''.'' \<notin> set p \<Longrightarrow> strip_prefix (p @ CHR ''.'' # s) = s"
  by (simp add: strip_prefix_def py_find_first nat_add_distrib)

lemma strip_prefix_no_dot: "CHR ''.'' \<notin> set a \<Longrightarrow> strip_prefix a = a"
  by (simp add: strip_prefix_def)

lemma jointp_loop_char:
  "jointp_loop a b gs (cs, ws) =
     (if \<exists>g \<in> set gs. a |\<in>| g \<and> b |\<in>| g
      then (finsert (a, b) cs, ws) else (cs, finsert (a, b) ws))"
  by (induction gs) auto

lemma main_in_no_group: "\<not> (\<exists>g \<in> set jointp. ''main'' |\<in>| g)"
  by (simp add: jointp_def)

lemma compare_char:
  "compare a b (correct_set, wrong_set) =
     (let a' = strip_prefix a; b' = strip_prefix b; pair = (min a' b', max a' b')
      in if (a' = b' \<and> a' \<noteq> ''main'') \<or> (\<exists>g \<in> set jointp. a' |\<in>| g \<and> b' |\<in>| g)
         then (finsert pair correct_set, wrong_set)
         else (correct_set, finsert pair wrong_set))"
proof (cases "strip_prefix a > strip_prefix b")
  case True
  then have m: "min (strip_prefix a) (strip_prefix b) = strip_prefix b"
    "max (strip_prefix a) (strip_prefix b) = strip_prefix a"
    by (auto simp: min_def max_def)
  from True have ne: "strip_prefix a \<noteq> strip_prefix b" by auto
  show ?thesis
    using True ne unfolding compare_def Let_def m
    by (auto simp: jointp_loop_char)
next
  case False
  then have m: "min (strip_prefix a) (strip_prefix b) = strip_prefix a"
    "max (strip_prefix a) (strip_prefix b) = strip_prefix b"
    by (auto simp: min_def max_def)
  show ?thesis
    using False main_in_no_group unfolding compare_def Let_def m
    by (auto simp: jointp_loop_char)
qed

section \<open>Properties of the subsumption filter\<close>

text \<open>
  C2, as the code has it: a class is discarded exactly when it is a strict subset of
  some class of the same collection; a discarded class changes no counter in either
  pass. Classes of equal value do not subsume one another, because \<open>cc != set2\<close>
  compares the values of the two sets.
\<close>

theorem C2_strict_subset_discarded:
  "is_subset cc res = (\<exists>set2 \<in> set res. cc |\<subset>| set2) \<and>
   (is_subset cc res \<longrightarrow>
      detected_step res gt cc c = Inr c \<and> truth_step det res cc c = c)"
  by (simp add: is_subset_iff detected_step_def truth_step_def)

theorem C2_strict_subset_discarded_witness:
  "is_subset {|''A''|} [{|''A'', ''B''|}, {|''A''|}] \<and>
   detected_step [{|''A'', ''B''|}, {|''A''|}] [{|''A'', ''B'', ''C''|}] {|''A''|}
     \<lparr>tp = 0, fp = 0, fn = 0\<rparr> = Inr \<lparr>tp = 0, fp = 0, fn = 0\<rparr> \<and>
   \<not> is_subset {|''A'', ''B''|} [{|''A'', ''B''|}, {|''A''|}]"
proof -
  have "is_subset {|''A''|} [{|''A'', ''B''|}, {|''A''|}]"
    by code_simp
  moreover have "\<not> is_subset {|''A'', ''B''|} [{|''A'', ''B''|}, {|''A''|}]"
    by code_simp
  ultimately show ?thesis
    using C2_strict_subset_discarded
      [of "{|''A''|}" "[{|''A'', ''B''|}, {|''A''|}]" "[{|''A'', ''B'', ''C''|}]"
          "\<lparr>tp = 0, fp = 0, fn = 0\<rparr>"]
    by blast
qed

text \<open>
  C2, as the specification states it, fails: in \<open>[{A}, {A}]\<close> the class at position 0
  is contained in the different class at position 1, yet it is not discarded.
\<close>

theorem C2_equal_classes_counterexample:
  "spec_subsumed 0 [{|''A''|}, {|''A''|}] \<and>
   \<not> is_subset ([{|''A''|}, {|''A''|}] ! 0) [{|''A''|}, {|''A''|}] \<and>
   survivors [{|''A''|}, {|''A''|}] = [{|''A''|}, {|''A''|}]"
  by code_simp

text \<open>
  C9: the subsumption filter is idempotent: filtering the classes that survived a
  first application discards nothing more.
\<close>

theorem C9_filter_idempotent: "survivors (survivors res) = survivors res"
proof -
  have "filter (\<lambda>cc. \<not> is_subset cc (survivors res)) (survivors res) = survivors res"
    by (rule filter_True[rule_format]) (simp add: is_subset_survivors)
  then show ?thesis by (subst survivors_def) simp
qed

section \<open>Properties of the first pass\<close>

text \<open>
  C1, as the code has it. Let every surviving detected class be non-empty and, united
  with any truth class, have at most \<open>2^26\<close> members (so that the doubles compare as the
  exact similarities do). Then the first pass accounts every surviving detected class
  \<open>d\<close> against \<open>matched_truth d truth\<close>: the first truth class of maximal Jaccard
  similarity when some truth class shares a member with \<open>d\<close>, the empty set otherwise.
  It adds \<open>|d \<inter> t|\<close> to \<open>tp\<close>, \<open>|d \<setminus> t|\<close> to \<open>fp\<close> and \<open>|t \<setminus> d|\<close> to \<open>fn\<close> for
  each of them, and these are the counters the second pass of the scorer starts from.
\<close>

theorem C1_best_match_accounting:
  assumes "\<forall>d \<in> set (survivors res). d \<noteq> {||}"
    and "\<forall>d \<in> set (survivors res). \<forall>t \<in> set truth. fcard (d |\<union>| t) \<le> 2 ^ 26"
  shows "detected_loop res truth res c =
     Inr \<lparr>tp = tp c + sum_list (map (\<lambda>d. int (fcard (d |\<inter>| matched_truth d truth)))
                                  (survivors res)),
          fp = fp c + sum_list (map (\<lambda>d. int (fcard (d |-| matched_truth d truth)))
                                  (survivors res)),
          fn = fn c + sum_list (map (\<lambda>d. int (fcard (matched_truth d truth |-| d)))
                                  (survivors res))\<rparr> \<and>
   (\<forall>d \<in> set (survivors res).
      (\<exists>s. best_jaccard d truth = Inr (s, matched_truth d truth)) \<and>
      (if \<exists>t \<in> set truth. d |\<inter>| t \<noteq> {||}
       then spec_best_truth d truth = Some (matched_truth d truth)
       else matched_truth d truth = {||}) \<and>
      detected_step res truth d c' =
        Inr \<lparr>tp = tp c' + int (fcard (d |\<inter>| matched_truth d truth)),
             fp = fp c' + int (fcard (d |-| matched_truth d truth)),
             fn = fn c' + int (fcard (matched_truth d truth |-| d))\<rparr>) \<and>
   count_all res truth =
     Inr (truth_loop res truth truth
       \<lparr>tp = sum_list (map (\<lambda>d. int (fcard (d |\<inter>| matched_truth d truth))) (survivors res)),
        fp = sum_list (map (\<lambda>d. int (fcard (d |-| matched_truth d truth))) (survivors res)),
        fn = sum_list (map (\<lambda>d. int (fcard (matched_truth d truth |-| d))) (survivors res))\<rparr>)"
proof -
  from assms have pre: "\<forall>d \<in> set res. \<not> is_subset d res \<longrightarrow>
             d \<noteq> {||} \<and> (\<forall>t \<in> set truth. fcard (d |\<union>| t) \<le> 2 ^ 26)"
    by (simp add: survivors_def)
  have loop: "detected_loop res truth res k =
     Inr \<lparr>tp = tp k + sum_list (map (\<lambda>d. int (fcard (d |\<inter>| matched_truth d truth)))
                                  (survivors res)),
          fp = fp k + sum_list (map (\<lambda>d. int (fcard (d |-| matched_truth d truth)))
                                  (survivors res)),
          fn = fn k + sum_list (map (\<lambda>d. int (fcard (matched_truth d truth |-| d)))
                                  (survivors res))\<rparr>" for k
    unfolding survivors_def by (rule detected_loop_sums[OF pre])
  have steps: "\<forall>d \<in> set (survivors res).
      (\<exists>s. best_jaccard d truth = Inr (s, matched_truth d truth)) \<and>
      (if \<exists>t \<in> set truth. d |\<inter>| t \<noteq> {||}
       then spec_best_truth d truth = Some (matched_truth d truth)
       else matched_truth d truth = {||}) \<and>
      detected_step res truth d c' =
        Inr \<lparr>tp = tp c' + int (fcard (d |\<inter>| matched_truth d truth)),
             fp = fp c' + int (fcard (d |-| matched_truth d truth)),
             fn = fn c' + int (fcard (matched_truth d truth |-| d))\<rparr>"
  proof
    fix d assume mem: "d \<in> set (survivors res)"
    with assms have ne: "d \<noteq> {||}" and sz: "\<forall>t \<in> set truth. fcard (d |\<union>| t) \<le> 2 ^ 26"
      by auto
    from mem have ns: "\<not> is_subset d res" by (simp add: survivors_def)
    from best_jaccard_matched[OF ne sz] detected_step_matched[OF ns ne sz, of c']
    show "(\<exists>s. best_jaccard d truth = Inr (s, matched_truth d truth)) \<and>
      (if \<exists>t \<in> set truth. d |\<inter>| t \<noteq> {||}
       then spec_best_truth d truth = Some (matched_truth d truth)
       else matched_truth d truth = {||}) \<and>
      detected_step res truth d c' =
        Inr \<lparr>tp = tp c' + int (fcard (d |\<inter>| matched_truth d truth)),
             fp = fp c' + int (fcard (d |-| matched_truth d truth)),
             fn = fn c' + int (fcard (matched_truth d truth |-| d))\<rparr>"
      by (simp add: account_def)
  qed
  have cnt: "count_all res truth =
     Inr (truth_loop res truth truth
       \<lparr>tp = sum_list (map (\<lambda>d. int (fcard (d |\<inter>| matched_truth d truth))) (survivors res)),
        fp = sum_list (map (\<lambda>d. int (fcard (d |-| matched_truth d truth))) (survivors res)),
        fn = sum_list (map (\<lambda>d. int (fcard (matched_truth d truth |-| d))) (survivors res))\<rparr>)"
    by (simp add: count_all_def loop)
  from loop[of c] steps cnt show ?thesis
    by (intro conjI)
qed

theorem C1_best_match_accounting_witness:
  "survivors [{|''A'', ''B''|}, {|''A''|}, {|''E''|}] = [{|''A'', ''B''|}, {|''E''|}] \<and>
   matched_truth {|''A'', ''B''|} [{|''A''|}, {|''A'', ''B'', ''C''|}, {|''B'', ''A'', ''D''|}]
     = {|''A'', ''B'', ''C''|} \<and>
   matched_truth {|''E''|} [{|''A''|}, {|''A'', ''B'', ''C''|}, {|''B'', ''A'', ''D''|}] = {||} \<and>
   detected_loop [{|''A'', ''B''|}, {|''A''|}, {|''E''|}]
     [{|''A''|}, {|''A'', ''B'', ''C''|}, {|''B'', ''A'', ''D''|}]
     [{|''A'', ''B''|}, {|''A''|}, {|''E''|}] \<lparr>tp = 0, fp = 0, fn = 0\<rparr>
     = Inr \<lparr>tp = 2, fp = 1, fn = 1\<rparr> \<and>
   count_all [{|''A'', ''B''|}, {|''A''|}, {|''E''|}]
     [{|''A''|}, {|''A'', ''B'', ''C''|}, {|''B'', ''A'', ''D''|}]
     = Inr \<lparr>tp = 2, fp = 1, fn = 1\<rparr>"
proof -
  let ?res = "[{|''A'', ''B''|}, {|''A''|}, {|''E''|}]"
  let ?truth = "[{|''A''|}, {|''A'', ''B'', ''C''|}, {|''B'', ''A'', ''D''|}]"
  let ?c = "\<lparr>tp = 0, fp = 0, fn = 0\<rparr>"
  have sv: "survivors ?res = [{|''A'', ''B''|}, {|''E''|}]"
    by code_simp
  have h1: "\<forall>d \<in> set (survivors ?res). d \<noteq> {||}"
    unfolding sv by simp
  have "\<forall>d \<in> set (survivors ?res). \<forall>t \<in> set ?truth. fcard (d |\<union>| t) \<le> 4"
    by code_simp
  then have h2: "\<forall>d \<in> set (survivors ?res). \<forall>t \<in> set ?truth. fcard (d |\<union>| t) \<le> 2 ^ 26"
    by fastforce
  note inst = C1_best_match_accounting [OF h1 h2, of ?c ?c]
  have m1: "matched_truth {|''A'', ''B''|} ?truth = {|''A'', ''B'', ''C''|}"
    and m2: "matched_truth {|''E''|} ?truth = {||}"
    by code_simp+
  have sums:
    "sum_list (map (\<lambda>d. int (fcard (d |\<inter>| matched_truth d ?truth))) (survivors ?res)) = 2"
    "sum_list (map (\<lambda>d. int (fcard (d |-| matched_truth d ?truth))) (survivors ?res)) = 1"
    "sum_list (map (\<lambda>d. int (fcard (matched_truth d ?truth |-| d))) (survivors ?res)) = 1"
    by code_simp+
  have second: "truth_loop ?res ?truth ?truth \<lparr>tp = 2, fp = 1, fn = 1\<rparr> = \<lparr>tp = 2, fp = 1, fn = 1\<rparr>"
    by code_simp
  from inst sums have det: "detected_loop ?res ?truth ?res ?c = Inr \<lparr>tp = 2, fp = 1, fn = 1\<rparr>"
    by simp
  from inst sums second have cnt: "count_all ?res ?truth = Inr \<lparr>tp = 2, fp = 1, fn = 1\<rparr>"
    by simp
  from sv m1 m2 det cnt show ?thesis
    by blast
qed

text \<open>
  C1, as the specification states it, fails when \<open>d\<close> is disjoint from every truth
  class: for \<open>d = {A}\<close> and the single truth class \<open>{B}\<close>, the class of maximal
  Jaccard similarity is \<open>{B}\<close>, and accounting against it would add 1 to \<open>fn\<close>; the
  scorer adds nothing to \<open>fn\<close>.
\<close>

theorem C1_disjoint_counterexample:
  "\<not> is_subset {|''A''|} [{|''A''|}] \<and>
   spec_best_truth {|''A''|} [{|''B''|}] = Some {|''B''|} \<and>
   account {|''A''|} {|''B''|} \<lparr>tp = 0, fp = 0, fn = 0\<rparr> = \<lparr>tp = 0, fp = 1, fn = 1\<rparr> \<and>
   detected_step [{|''A''|}] [{|''B''|}] {|''A''|} \<lparr>tp = 0, fp = 0, fn = 0\<rparr>
     = Inr \<lparr>tp = 0, fp = 1, fn = 0\<rparr> \<and>
   detected_step [{|''A''|}] [{|''B''|}] {|''A''|} \<lparr>tp = 0, fp = 0, fn = 0\<rparr>
     \<noteq> Inr (account {|''A''|} {|''B''|} \<lparr>tp = 0, fp = 0, fn = 0\<rparr>) \<and>
   detected_loop [{|''A''|}] [{|''B''|}] [{|''A''|}] \<lparr>tp = 0, fp = 0, fn = 0\<rparr>
     = Inr \<lparr>tp = 0, fp = 1, fn = 0\<rparr> \<and>
   count_all [{|''A''|}] [{|''B''|}] = Inr \<lparr>tp = 0, fp = 1, fn = 1\<rparr>"
  by code_simp

text \<open>
  C10: when a surviving detected class \<open>d\<close> has Jaccard similarity zero with every
  truth class, the best match stays the initial empty set: \<open>fp\<close> grows by \<open>|d|\<close>,
  \<open>tp\<close> and \<open>fn\<close> are unchanged.
\<close>

theorem C10_disjoint_matches_empty_set:
  assumes "\<not> is_subset d res" and "\<forall>t \<in> set gt. jaccard d t = Inr 0"
  shows "best_jaccard d gt = Inr (0, {||}) \<and>
         detected_step res gt d c = Inr \<lparr>tp = tp c, fp = fp c + int (fcard d), fn = fn c\<rparr>"
  using assms
  by (simp add: best_jaccard_def jaccard_zero_loop detected_step_def account_empty)

theorem C10_disjoint_matches_empty_set_witness:
  "\<not> is_subset {|''A''|} [{|''A''|}] \<and>
   jaccard {|''A''|} {|''B'', ''C''|} = Inr 0 \<and>
   best_jaccard {|''A''|} [{|''B'', ''C''|}] = Inr (0, {||}) \<and>
   detected_step [{|''A''|}] [{|''B'', ''C''|}] {|''A''|} \<lparr>tp = 0, fp = 0, fn = 0\<rparr>
     = Inr \<lparr>tp = 0, fp = 1, fn = 0\<rparr>"
proof -
  have h1: "\<not> is_subset {|''A''|} [{|''A''|}]"
    by code_simp
  have j: "jaccard {|''A''|} {|''B'', ''C''|} = Inr 0"
    by code_simp
  then have h2: "\<forall>t \<in> set [{|''B'', ''C''|}]. jaccard {|''A''|} t = Inr 0"
    by simp
  have "fcard {|''A''|} = 1"
    by code_simp
  with C10_disjoint_matches_empty_set [OF h1 h2, of "\<lparr>tp = 0, fp = 0, fn = 0\<rparr>"] h1 j
  show ?thesis by simp
qed

section \<open>Properties of the second pass\<close>

text \<open>
  C3: the second pass visits every truth class. For each surviving class \<open>t\<close> it computes
  the largest raw intersection size \<open>|t \<inter> r|\<close> over all detected classes \<open>r\<close>, reached
  by a detected class when it is positive; it adds \<open>|t|\<close> to \<open>fn\<close> when that size is zero
  and changes no counter otherwise. So the pass, and with it the scorer, adds to \<open>fn\<close>
  the sizes of the surviving truth classes that share no member with any detected
  class, and leaves \<open>tp\<close> and \<open>fp\<close> as they were.
\<close>

theorem C3_unmatched_truth:
  "truth_loop res truth truth c =
     \<lparr>tp = tp c, fp = fp c,
      fn = fn c + sum_list (map (\<lambda>t. int (fcard t))
                 (filter (\<lambda>t. \<forall>r \<in> set res. t |\<inter>| r = {||}) (survivors truth)))\<rparr> \<and>
   (\<forall>t \<in> set (survivors truth).
      \<exists>best_score best_other.
        best_overlap t res = (best_score, best_other) \<and>
        (\<forall>r \<in> set res. of_nat (fcard (t |\<inter>| r)) \<le> best_score) \<and>
        (if \<forall>r \<in> set res. t |\<inter>| r = {||}
         then best_score = 0 \<and>
              truth_step res truth t c' = \<lparr>tp = tp c', fp = fp c', fn = fn c' + int (fcard t)\<rparr>
         else best_other \<in> set res \<and>
              best_score = of_nat (fcard (t |\<inter>| best_other)) \<and> 0 < best_score \<and>
              truth_step res truth t c' = c')) \<and>
   (detected_loop res truth res \<lparr>tp = 0, fp = 0, fn = 0\<rparr> = Inr c1 \<longrightarrow>
      count_all res truth =
        Inr \<lparr>tp = tp c1, fp = fp c1,
             fn = fn c1 + sum_list (map (\<lambda>t. int (fcard t))
                 (filter (\<lambda>t. \<forall>r \<in> set res. t |\<inter>| r = {||}) (survivors truth)))\<rparr>)"
proof -
  have loop: "truth_loop res truth truth k =
     \<lparr>tp = tp k, fp = fp k,
      fn = fn k + sum_list (map (\<lambda>t. int (fcard t))
                 (filter (\<lambda>t. \<forall>r \<in> set res. t |\<inter>| r = {||}) (survivors truth)))\<rparr>" for k
    by (simp add: truth_loop_sums survivors_def)
  have steps: "\<forall>t \<in> set (survivors truth).
      \<exists>best_score best_other.
        best_overlap t res = (best_score, best_other) \<and>
        (\<forall>r \<in> set res. of_nat (fcard (t |\<inter>| r)) \<le> best_score) \<and>
        (if \<forall>r \<in> set res. t |\<inter>| r = {||}
         then best_score = 0 \<and>
              truth_step res truth t c' = \<lparr>tp = tp c', fp = fp c', fn = fn c' + int (fcard t)\<rparr>
         else best_other \<in> set res \<and>
              best_score = of_nat (fcard (t |\<inter>| best_other)) \<and> 0 < best_score \<and>
              truth_step res truth t c' = c')"
  proof
    fix t assume "t \<in> set (survivors truth)"
    then have "\<not> is_subset t truth" by (simp add: survivors_def)
    then show "\<exists>best_score best_other.
        best_overlap t res = (best_score, best_other) \<and>
        (\<forall>r \<in> set res. of_nat (fcard (t |\<inter>| r)) \<le> best_score) \<and>
        (if \<forall>r \<in> set res. t |\<inter>| r = {||}
         then best_score = 0 \<and>
              truth_step res truth t c' = \<lparr>tp = tp c', fp = fp c', fn = fn c' + int (fcard t)\<rparr>
         else best_other \<in> set res \<and>
              best_score = of_nat (fcard (t |\<inter>| best_other)) \<and> 0 < best_score \<and>
              truth_step res truth t c' = c')"
      by (rule truth_step_char)
  qed
  have "count_all res truth = Inr (truth_loop res truth truth c1)"
    if "detected_loop res truth res \<lparr>tp = 0, fp = 0, fn = 0\<rparr> = Inr c1"
    using that by (simp add: count_all_def)
  with loop[of c] loop[of c1] steps show ?thesis
    by (simp only:) blast
qed

theorem C3_unmatched_truth_witness:
  "truth_loop [{|''A''|}, {|''A'', ''B''|}] [{|''A'', ''B'', ''C''|}, {|''D'', ''E''|}, {|''D''|}]
     [{|''A'', ''B'', ''C''|}, {|''D'', ''E''|}, {|''D''|}] \<lparr>tp = 2, fp = 0, fn = 1\<rparr>
     = \<lparr>tp = 2, fp = 0, fn = 3\<rparr> \<and>
   detected_loop [{|''A''|}, {|''A'', ''B''|}] [{|''A'', ''B'', ''C''|}, {|''D'', ''E''|}, {|''D''|}]
     [{|''A''|}, {|''A'', ''B''|}] \<lparr>tp = 0, fp = 0, fn = 0\<rparr> = Inr \<lparr>tp = 2, fp = 0, fn = 1\<rparr> \<and>
   count_all [{|''A''|}, {|''A'', ''B''|}] [{|''A'', ''B'', ''C''|}, {|''D'', ''E''|}, {|''D''|}]
     = Inr \<lparr>tp = 2, fp = 0, fn = 3\<rparr> \<and>
   survivors [{|''A'', ''B'', ''C''|}, {|''D'', ''E''|}, {|''D''|}]
     = [{|''A'', ''B'', ''C''|}, {|''D'', ''E''|}] \<and>
   (\<exists>best_score best_other.
      best_overlap {|''D'', ''E''|} [{|''A''|}, {|''A'', ''B''|}] = (best_score, best_other) \<and>
      best_score = 0)"
proof -
  let ?res = "[{|''A''|}, {|''A'', ''B''|}]"
  let ?truth = "[{|''A'', ''B'', ''C''|}, {|''D'', ''E''|}, {|''D''|}]"
  let ?c = "\<lparr>tp = 2, fp = 0, fn = 1\<rparr>"
  note inst = C3_unmatched_truth [of ?res ?truth ?c ?c ?c]
  have sv: "survivors ?truth = [{|''A'', ''B'', ''C''|}, {|''D'', ''E''|}]"
    by code_simp
  have sum: "sum_list (map (\<lambda>t. int (fcard t))
               (filter (\<lambda>t. \<forall>r \<in> set ?res. t |\<inter>| r = {||}) (survivors ?truth))) = 2"
    by code_simp
  have det: "detected_loop ?res ?truth ?res \<lparr>tp = 0, fp = 0, fn = 0\<rparr> = Inr ?c"
    by code_simp
  from inst sum have loop: "truth_loop ?res ?truth ?truth ?c = \<lparr>tp = 2, fp = 0, fn = 3\<rparr>"
    by simp
  from inst det sum have cnt: "count_all ?res ?truth = Inr \<lparr>tp = 2, fp = 0, fn = 3\<rparr>"
    by simp
  have mem: "{|''D'', ''E''|} \<in> set (survivors ?truth)"
    unfolding sv by simp
  have z: "\<forall>r \<in> set ?res. {|''D'', ''E''|} |\<inter>| r = {||}"
    by code_simp
  from inst mem z have
    "\<exists>best_score best_other.
      best_overlap {|''D'', ''E''|} ?res = (best_score, best_other) \<and> best_score = 0"
    by fastforce
  with loop det cnt sv show ?thesis
    by blast
qed

section \<open>Properties of the derived metrics\<close>

text \<open>
  C5: when \<open>tp + fp = 0\<close> or \<open>tp + fn = 0\<close>, deriving precision, recall and F-score
  raises \<open>ZeroDivisionError\<close>; no metric value is produced, and the whole scorer ends
  with that error.
\<close>

theorem C5_zero_denominator_raises:
  assumes "tp c + fp c = 0 \<or> tp c + fn c = 0"
  shows "derive_metrics c = Inl ZeroDivisionError \<and>
         (count_all res gt = Inr c \<longrightarrow> scorer res gt = Inl ZeroDivisionError)"
  using assms by (auto simp: derive_metrics_def py_truediv_def scorer_def)

theorem C5_zero_denominator_raises_witness:
  "derive_metrics \<lparr>tp = 0, fp = 0, fn = 1\<rparr> = Inl ZeroDivisionError \<and>
   count_all [{||}] [{|''A''|}] = Inr \<lparr>tp = 0, fp = 0, fn = 1\<rparr> \<and>
   scorer [{||}] [{|''A''|}] = Inl ZeroDivisionError"
proof -
  have c: "count_all [{||}] [{|''A''|}] = Inr \<lparr>tp = 0, fp = 0, fn = 1\<rparr>"
    by code_simp
  have h: "tp \<lparr>tp = 0, fp = 0, fn = 1\<rparr> + fp \<lparr>tp = 0, fp = 0, fn = 1\<rparr> = 0
         \<or> tp \<lparr>tp = 0, fp = 0, fn = 1\<rparr> + fn \<lparr>tp = 0, fp = 0, fn = 1\<rparr> = 0"
    by simp
  from C5_zero_denominator_raises [OF h, of "[{||}]" "[{|''A''|}]"] c
  show ?thesis by simp
qed

section \<open>Properties of the whole scorer\<close>

text \<open>
  C6: the concrete scenario \<open>detected = [{A,B}, {A}]\<close>, \<open>truth = [{A,B,C}]\<close>: the filter
  keeps \<open>{A,B}\<close> only, its best match is \<open>{A,B,C}\<close> with Jaccard similarity 2/3, and
  the scorer ends with \<open>tp = 2, fp = 0, fn = 1\<close>, precision 1, recall 2/3 (0.6667 to
  four decimals) and F-score 0.8.
\<close>

theorem C6_concrete_scenario:
  "survivors [{|''A'', ''B''|}, {|''A''|}] = [{|''A'', ''B''|}] \<and>
   best_jaccard {|''A'', ''B''|} [{|''A'', ''B'', ''C''|}] = Inr (2 / 3, {|''A'', ''B'', ''C''|}) \<and>
   scorer [{|''A'', ''B''|}, {|''A''|}] [{|''A'', ''B'', ''C''|}] =
     Inr (\<lparr>tp = 2, fp = 0, fn = 1\<rparr>, \<lparr>precision = 1, recall = 2 / 3, fscore = 8 / 10\<rparr>) \<and>
   \<bar>2 / 3 - 6667 / 10000\<bar> < (1 / 20000 :: rat)"
  by code_simp

text \<open>
  C7: when no detected class shares a function identifier with a truth class, and each
  of the two collections has a non-empty class (in particular: for non-empty
  collections of non-empty clone classes), the scorer returns, with \<open>tp = 0\<close>, a
  positive \<open>tp + fp + fn\<close> and an F-score of 0.
\<close>

theorem C7_disjoint_collections:
  assumes "\<exists>d \<in> set res. d \<noteq> {||}" and "\<exists>t \<in> set gt. t \<noteq> {||}"
    and "\<forall>d \<in> set res. \<forall>t \<in> set gt. d |\<inter>| t = {||}"
  shows "\<exists>c m. scorer res gt = Inr (c, m) \<and> tp c = 0 \<and> 0 < tp c + fp c + fn c \<and> fscore m = 0"
proof -
  let ?c0 = "\<lparr>tp = 0, fp = 0, fn = 0\<rparr>"
  from assms(1) have res: "res \<noteq> []" "\<forall>d \<in> set res. \<not> is_subset d res \<longrightarrow> d \<noteq> {||}"
    by (auto dest: survivor_nonempty)
  from assms(2) have gt: "gt \<noteq> []" "\<forall>t \<in> set gt. \<not> is_subset t gt \<longrightarrow> t \<noteq> {||}"
    by (auto dest: survivor_nonempty)
  from detected_loop_disjoint[OF res(2) assms(3), of ?c0] obtain c1 where
    c1: "detected_loop res gt res ?c0 = Inr c1" "tp c1 = 0" "fn c1 = 0" "0 \<le> fp c1"
      "\<forall>d \<in> set res. \<not> is_subset d res \<longrightarrow> 0 < fp c1"
    by auto
  from exists_survivor[OF res(1)] c1(5) have fp1: "0 < fp c1" by blast
  let ?c2 = "truth_loop res gt gt c1"
  from assms(3) have "\<forall>t \<in> set gt. \<forall>r \<in> set res. t |\<inter>| r = {||}"
    by (auto simp: finter_commute)
  from truth_loop_disjoint[OF gt(2) this, of c1] have
    c2: "tp ?c2 = tp c1" "fp ?c2 = fp c1" "\<forall>t \<in> set gt. \<not> is_subset t gt \<longrightarrow> fn c1 < fn ?c2"
    by blast+
  from exists_survivor[OF gt(1)] c2(3) c1(3) have fn2: "0 < fn ?c2" by auto
  have ca: "count_all res gt = Inr ?c2"
    by (simp add: count_all_def c1(1))
  from c2 c1 fp1 fn2 have
    dm: "derive_metrics ?c2 = Inr \<lparr>precision = 0, recall = 0, fscore = 0\<rparr>"
    by (simp add: derive_metrics_def py_truediv_def)
  from ca dm have "scorer res gt = Inr (?c2, \<lparr>precision = 0, recall = 0, fscore = 0\<rparr>)"
    by (simp add: scorer_def)
  moreover have "tp ?c2 = 0" using c2(1) c1(2) by simp
  moreover have "0 < tp ?c2 + fp ?c2 + fn ?c2" using c2 c1 fp1 fn2 by simp
  ultimately show ?thesis by force
qed

theorem C7_disjoint_collections_witness:
  "(\<exists>d \<in> set [{|''A''|}, {|''A'', ''B''|}]. d \<noteq> {||}) \<and>
   (\<exists>t \<in> set [{|''C''|}]. t \<noteq> {||}) \<and>
   {|''A''|} |\<inter>| {|''C''|} = ({||} :: clone_class) \<and>
   {|''A'', ''B''|} |\<inter>| {|''C''|} = ({||} :: clone_class) \<and>
   (\<exists>c m. scorer [{|''A''|}, {|''A'', ''B''|}] [{|''C''|}] = Inr (c, m) \<and>
      tp c = 0 \<and> 0 < tp c + fp c + fn c \<and> fscore m = 0) \<and>
   scorer [{|''A''|}, {|''A'', ''B''|}] [{|''C''|}] =
     Inr (\<lparr>tp = 0, fp = 2, fn = 1\<rparr>, \<lparr>precision = 0, recall = 0, fscore = 0\<rparr>)"
proof -
  let ?res = "[{|''A''|}, {|''A'', ''B''|}]"
  let ?gt = "[{|''C''|}]"
  have h1: "\<exists>d \<in> set ?res. d \<noteq> {||}" and h2: "\<exists>t \<in> set ?gt. t \<noteq> {||}"
    by simp_all
  have d1: "{|''A''|} |\<inter>| {|''C''|} = ({||} :: clone_class)"
    and d2: "{|''A'', ''B''|} |\<inter>| {|''C''|} = ({||} :: clone_class)"
    by code_simp+
  then have h3: "\<forall>d \<in> set ?res. \<forall>t \<in> set ?gt. d |\<inter>| t = {||}"
    by simp
  have v: "scorer ?res ?gt =
     Inr (\<lparr>tp = 0, fp = 2, fn = 1\<rparr>, \<lparr>precision = 0, recall = 0, fscore = 0\<rparr>)"
    by code_simp
  from C7_disjoint_collections [OF h1 h2 h3] h1 h2 d1 d2 v show ?thesis
    by blast
qed

text \<open>
  C8: a non-empty clone class \<open>c\<close> compared against itself,
  \<open>detected = truth = [c]\<close>, yields \<open>tp = |c|\<close>, \<open>fp = 0\<close>, \<open>fn = 0\<close> and precision,
  recall and F-score all equal to 1.
\<close>

theorem C8_class_against_itself:
  assumes "c \<noteq> {||}"
  shows "scorer [c] [c] =
    Inr (\<lparr>tp = int (fcard c), fp = 0, fn = 0\<rparr>, \<lparr>precision = 1, recall = 1, fscore = 1\<rparr>)"
proof -
  from assms have pos: "fcard c \<noteq> 0" by (simp add: fcard_0_eq)
  have ns: "\<not> is_subset c [c]" by (simp add: is_subset_def)
  from pos have j: "jaccard c c = Inr 1"
    by (simp add: jaccard_def py_truediv_def)
  then have bj: "best_jaccard c [c] = Inr (1, c)"
    by (simp add: best_jaccard_def double_round_zero double_round_one)
  have d: "detected_loop [c] [c] [c] \<lparr>tp = 0, fp = 0, fn = 0\<rparr> = Inr \<lparr>tp = int (fcard c), fp = 0, fn = 0\<rparr>"
    using ns bj by (simp add: detected_step_def account_def)
  from pos have bo: "best_overlap c [c] = (of_nat (fcard c), c)"
    by (simp add: best_overlap_def)
  from pos have t: "truth_loop [c] [c] [c] \<lparr>tp = int (fcard c), fp = 0, fn = 0\<rparr> = \<lparr>tp = int (fcard c), fp = 0, fn = 0\<rparr>"
    using ns bo by (simp add: truth_step_def)
  from d t have ca: "count_all [c] [c] = Inr \<lparr>tp = int (fcard c), fp = 0, fn = 0\<rparr>"
    by (simp add: count_all_def)
  from pos have "derive_metrics \<lparr>tp = int (fcard c), fp = 0, fn = 0\<rparr> = Inr \<lparr>precision = 1, recall = 1, fscore = 1\<rparr>"
    by (simp add: derive_metrics_def py_truediv_def)
  with ca show ?thesis by (simp add: scorer_def)
qed

theorem C8_class_against_itself_witness:
  "{|''A'', ''B''|} \<noteq> {||} \<and>
   scorer [{|''A'', ''B''|}] [{|''A'', ''B''|}] =
     Inr (\<lparr>tp = 2, fp = 0, fn = 0\<rparr>, \<lparr>precision = 1, recall = 1, fscore = 1\<rparr>)"
proof -
  have h: "{|''A'', ''B''|} \<noteq> ({||} :: clone_class)"
    by simp
  have "fcard {|''A'', ''B''|} = 2"
    by code_simp
  with C8_class_against_itself [OF h] h show ?thesis
    by simp
qed

section \<open>Properties of \<open>compare\<close>\<close>

text \<open>
  C4: \<open>compare\<close> strips from each name the prefix up to and including its first
  \<open>.\<close> (a name without \<open>.\<close> is kept), orders the two stripped names
  lexicographically, and adds the pair to \<open>correct_set\<close> exactly when the stripped
  names are equal and not \<open>main\<close>, or both belong to one group of \<open>jointp\<close>;
  otherwise the pair is added to \<open>wrong_set\<close>. In particular
  \<open>("x.main", "y.main")\<close> is classified wrong.
\<close>

theorem C4_compare_classification:
  "(CHR ''.'' \<notin> set p \<longrightarrow> strip_prefix (p @ CHR ''.'' # s) = s) \<and>
   (CHR ''.'' \<notin> set q \<longrightarrow> strip_prefix q = q) \<and>
   compare a b (correct_set, wrong_set) =
     (let a' = strip_prefix a; b' = strip_prefix b; pair = (min a' b', max a' b')
      in if (a' = b' \<and> a' \<noteq> ''main'') \<or> (\<exists>g \<in> set jointp. a' |\<in>| g \<and> b' |\<in>| g)
         then (finsert pair correct_set, wrong_set)
         else (correct_set, finsert pair wrong_set)) \<and>
   compare ''x.main'' ''y.main'' (correct_set, wrong_set)
     = (correct_set, finsert (''main'', ''main'') wrong_set)"
proof -
  have sx: "strip_prefix ''x.main'' = ''main''" and sy: "strip_prefix ''y.main'' = ''main''"
    by (simp_all add: strip_prefix_def)
  have "compare ''x.main'' ''y.main'' (correct_set, wrong_set)
     = (correct_set, finsert (''main'', ''main'') wrong_set)"
    unfolding compare_char[of "''x.main''" "''y.main''"] sx sy Let_def
    using main_in_no_group by simp
  then show ?thesis
    using compare_char[of a b correct_set wrong_set]
    by (simp add: strip_prefix_first_dot strip_prefix_no_dot)
qed

theorem C4_compare_classification_witness:
  "CHR ''.'' \<notin> set ''a'' \<and> strip_prefix ''a.md5_finish_ctx'' = ''md5_finish_ctx'' \<and>
   CHR ''.'' \<notin> set ''foo'' \<and> strip_prefix ''foo'' = ''foo'' \<and>
   compare ''b.sha1_finish_ctx'' ''a.md5_finish_ctx'' ({||}, {||})
     = ({|(''md5_finish_ctx'', ''sha1_finish_ctx'')|}, {||})"
proof -
  let ?a = "''b.sha1_finish_ctx''"
  let ?b = "''a.md5_finish_ctx''"
  have h1: "CHR ''.'' \<notin> set ''a''" and h2: "CHR ''.'' \<notin> set ''foo''"
    by simp_all
  have sa: "strip_prefix ?a = ''sha1_finish_ctx''" and sb: "strip_prefix ?b = ''md5_finish_ctx''"
    by code_simp+
  have mm: "min ''sha1_finish_ctx'' ''md5_finish_ctx'' = ''md5_finish_ctx''"
    "max ''sha1_finish_ctx'' ''md5_finish_ctx'' = ''sha1_finish_ctx''"
    by code_simp+
  have g: "\<exists>g \<in> set jointp. ''sha1_finish_ctx'' |\<in>| g \<and> ''md5_finish_ctx'' |\<in>| g"
    by code_simp
  note inst = C4_compare_classification
    [where p = "''a''" and s = "''md5_finish_ctx''" and q = "''foo''"
       and a = ?a and b = ?b and correct_set = "{||}" and wrong_set = "{||}"]
  from inst h1 have "strip_prefix (''a'' @ CHR ''.'' # ''md5_finish_ctx'') = ''md5_finish_ctx''"
    by blast
  then have c1: "strip_prefix ''a.md5_finish_ctx'' = ''md5_finish_ctx''"
    by simp
  from inst h2 have c2: "strip_prefix ''foo'' = ''foo''"
    by blast
  from inst have "compare ?a ?b ({||}, {||}) =
     (let a' = strip_prefix ?a; b' = strip_prefix ?b; pair = (min a' b', max a' b')
      in if (a' = b' \<and> a' \<noteq> ''main'') \<or> (\<exists>g \<in> set jointp. a' |\<in>| g \<and> b' |\<in>| g)
         then (finsert pair {||}, {||})
         else ({||}, finsert pair {||}))"
    by blast
  then have c3: "compare ?a ?b ({||}, {||}) = ({|(''md5_finish_ctx'', ''sha1_finish_ctx'')|}, {||})"
    unfolding sa sb Let_def mm using g by simp
  from h1 c1 h2 c2 c3 show ?thesis
    by blast
qed

end
